theory Spec2Isabelle
  imports Main "HOL-Library.Sublist"
begin

section \<open>The dispatcher of the Minecraft Overviewer (overviewer_core/dispatcher.py)\<close>

text \<open>
  The file coordinates rendering work: \<open>Dispatcher.render_all\<close> walks the phases of a
  list of tilesets, merges the work items of one phase round-robin and hands each item to
  \<open>dispatch\<close>; \<open>MultiprocessingDispatcher\<close> overrides the hooks so that the items travel
  through a job queue to worker processes, whose results come back through a result queue
  and are counted.
\<close>

subsection \<open>Round-robin merging\<close>

text \<open>
  Modelled from the spec: \<open>util.roundrobin\<close>, which \<open>render_all\<close> calls at line 54 and
  whose module is not part of the sources at hand. The spec (section 4.2) describes it as
  a merger that on each step advances the sequences in fixed rotation order, removes a
  sequence once it signals exhaustion, and continues until all are exhausted; rotation
  order is input order.

  The model keeps the live sequences in rotation order. A step looks at the sequence whose
  turn it is: an exhausted one is removed from the rotation; otherwise its next element
  is emitted and the sequence goes to the back of the rotation. Lazy sequences are
  represented by finite lists.
\<close>

function roundrobin :: "'a list list \<Rightarrow> 'a list" where
  "roundrobin [] = []"
| "roundrobin ([] # rest) = roundrobin rest"
| "roundrobin ((x # xs) # rest) = x # roundrobin (rest @ [xs])"
  by pat_completeness auto
termination
  by (relation "measure (\<lambda>xss. 2 * sum_list (map length xss) + length xss)") auto

definition live :: "'a list list \<Rightarrow> 'a list list" where
  "live xss = filter (\<lambda>xs. xs \<noteq> []) xss"

lemma roundrobin_rotation:
  "roundrobin (xss @ yss) = map hd (live xss) @ roundrobin (yss @ map tl (live xss))"
proof (induction xss arbitrary: yss)
  case Nil
  show ?case by (simp add: live_def)
next
  case (Cons xs xss)
  show ?case
  proof (cases xs)
    case Nil
    with Cons.IH [of yss] show ?thesis by (simp add: live_def)
  next
    case (Cons x xs')
    with Cons.IH [of "yss @ [xs']"] show ?thesis by (simp add: live_def)
  qed
qed

text \<open>
  C8. Round-robin fairness: one full rotation emits the next element of every live
  sequence, in input order, and the merge continues with what is left of the live
  sequences, the exhausted ones dropped. For three sequences of lengths 3, 1 and 2 whose
  elements are tagged with the index of their sequence, the tags come out as
  0, 1, 2, 0, 2, 0.
\<close>

theorem roundrobin_fair:
  "roundrobin xss = map hd (live xss) @ roundrobin (map tl (live xss))
   \<and> map fst (roundrobin [[(0::nat, a1), (0, a2), (0, a3)], [(1, b1)], [(2, c1), (2, c2)]])
     = [0, 1, 2, 0, 2, 0]"
proof
  show "roundrobin xss = map hd (live xss) @ roundrobin (map tl (live xss))"
    using roundrobin_rotation [of xss "[]"] by simp
  show "map fst (roundrobin [[(0::nat, a1), (0, a2), (0, a3)], [(1, b1)], [(2, c1), (2, c2)]])
     = [0, 1, 2, 0, 2, 0]"
    by simp
qed

subsection \<open>Tilesets, jobs and errors\<close>

text \<open>
  A tileset is opaque to the dispatcher: it is used through \<open>get_num_phases\<close>,
  \<open>iterate_work_items\<close>, \<open>do_work\<close> and \<open>do_preprocessing\<close> only. The model gives
  each tileset object an identity \<open>ts_id\<close> (Python compares the objects by identity in
  \<open>list.index\<close>), a phase count, the work items of each phase as a finite list, and
  \<open>do_work\<close> as a function that returns a result or raises. Work items and results are
  opaque payloads, represented by numbers. Tilesets are immutable values here;
  \<open>do_preprocessing\<close> is recorded as an event and has no other effect on the dispatcher.
\<close>

type_synonym workitem = nat
type_synonym result = nat

datatype exn = ValueError | AssertionError | IndexError | AttributeError | TypeError
  | IOError | WorkError

record tileset =
  ts_id :: nat
  get_num_phases :: int
  iterate_work_items :: "int \<Rightarrow> workitem list"
  do_work :: "workitem \<Rightarrow> exn + result"

text \<open>A job is the tuple \<open>(tileset_version, tileset_index, workitem)\<close> of line 219.\<close>

type_synonym job = "int \<times> nat \<times> workitem"

text \<open>\<open>list.index\<close>: the position of the first element equal to the argument, or ValueError
  (here \<open>None\<close>).\<close>

fun index :: "tileset list \<Rightarrow> tileset \<Rightarrow> nat option" where
  "index [] t = None"
| "index (x # xs) t = (if ts_id x = ts_id t then Some 0 else map_option Suc (index xs t))"

subsection \<open>MultiprocessingDispatcherManager: the published tileset list\<close>

text \<open>
  The manager keeps \<open>tilesets\<close> and \<open>tileset_version\<close> as plain attributes and
  \<open>tileset_data\<close>, a shared two-element list \<open>[tilesets, version]\<close> that the workers read
  through a proxy. \<open>set_tilesets\<close> is four assignments (lines 113 to 116); the last two
  are two separate writes to the shared list. \<open>get_tilesets\<close> reads the shared list in one
  call.

  Line 113 keeps the very list object that the caller passed, whereas the write of line
  115 sends a copy of it to the shared list. The field \<open>tilesets\<close> therefore stands for
  the present contents of the caller's list object: the caller can change them in place
  at any time (\<open>change_in_place\<close>), and the published copy \<open>tileset_data\<close> stays as it
  was.
\<close>

record manager =
  tilesets :: "tileset list"
  tileset_version :: int
  tileset_data :: "tileset list \<times> int"

definition manager_init :: manager where
  "manager_init = \<lparr>tilesets = [], tileset_version = 0, tileset_data = ([], 0)\<rparr>"

definition change_in_place :: "(tileset list \<Rightarrow> tileset list) \<Rightarrow> manager \<Rightarrow> manager" where
  "change_in_place f m = m\<lparr>tilesets := f (tilesets m)\<rparr>"

definition set_tilesets_113 :: "tileset list \<Rightarrow> manager \<Rightarrow> manager" where
  "set_tilesets_113 ts m = m\<lparr>tilesets := ts\<rparr>"

definition set_tilesets_114 :: "manager \<Rightarrow> manager" where
  "set_tilesets_114 m = m\<lparr>tileset_version := tileset_version m + 1\<rparr>"

definition set_tilesets_115 :: "manager \<Rightarrow> manager" where
  "set_tilesets_115 m = m\<lparr>tileset_data := (tilesets m, snd (tileset_data m))\<rparr>"

definition set_tilesets_116 :: "manager \<Rightarrow> manager" where
  "set_tilesets_116 m = m\<lparr>tileset_data := (fst (tileset_data m), tileset_version m)\<rparr>"

definition set_tilesets :: "tileset list \<Rightarrow> manager \<Rightarrow> manager" where
  "set_tilesets ts m =
     set_tilesets_116 (set_tilesets_115 (set_tilesets_114 (set_tilesets_113 ts m)))"

definition get_tilesets :: "manager \<Rightarrow> tileset list \<times> int" where
  "get_tilesets m = tileset_data m"



text \<open>The attributes and the shared list agree: true of a new manager and after every
  complete \<open>set_tilesets\<close>, until the caller changes its list in place.\<close>

definition consistent :: "manager \<Rightarrow> bool" where
  "consistent m \<longleftrightarrow> tileset_data m = (tilesets m, tileset_version m)"

text \<open>A tileset with one phase holding the single work item 7, used in examples.\<close>

definition ts_A :: tileset where
  "ts_A = \<lparr>ts_id = 0, get_num_phases = 1,
           iterate_work_items = (\<lambda>p. if p = 0 then [7] else []),
           do_work = (\<lambda>w. Inr (w + 100))\<rparr>"








subsection \<open>The whole system: dispatcher, queues and worker processes\<close>

text \<open>
  The state holds the attributes of the \<open>MultiprocessingDispatcher\<close> object
  (\<open>local_procs\<close>, \<open>outstanding_jobs\<close>, \<open>manager\<close>, \<open>pool\<close>), the two queues, and the worker
  processes \<open>procs\<close>, which are still there after \<open>close\<close> has dropped the \<open>pool\<close> list. A
  worker process is starting (it has not yet run the first \<open>update_tilesets\<close> of line 154),
  running with its cached tileset list and version, returned from \<open>run\<close>, or dead from an
  uncaught exception.

  Two components are not attributes of the program. \<open>schedule\<close> is the environment: each
  time the dispatcher waits in \<open>result_queue.get\<close>, the head of the schedule names the
  workers that complete one pass of their loop meanwhile; an empty schedule means that
  no worker runs any more. \<open>history\<close> is a log of the queue operations, fetches and
  publishes performed so far, kept so that claims about the past of a run can be stated;
  nothing reads it.
\<close>

datatype worker = Starting | Running "tileset list" int | Exited | Crashed exn

datatype event =
    Published int
  | Preprocessed nat
  | Enqueued job
  | SentinelSent
  | Drained result
  | Fetched nat int
  | Executed nat job result
  | Stopped nat
  | Died nat exn

datatype outcome = Returned | Raised exn

record sys =
  local_procs :: int
  outstanding_jobs :: int
  manager :: "manager option"
  pool :: "nat list option"
  job_queue :: "job option list"
  result_queue :: "result list"
  procs :: "worker list"
  schedule :: "nat list list"
  history :: "event list"

definition log :: "event \<Rightarrow> sys \<Rightarrow> sys" where
  "log e s = s\<lparr>history := history s @ [e]\<rparr>"

definition set_proc :: "nat \<Rightarrow> worker \<Rightarrow> sys \<Rightarrow> sys" where
  "set_proc i w s = s\<lparr>procs := (procs s)[i := w]\<rparr>"

text \<open>The caller of the dispatcher changes, in place, the list object that it handed to
  the last \<open>set_tilesets\<close>. Once \<open>close\<close> has dropped the manager, the dispatcher holds
  no reference to that list any more.\<close>

definition caller_changes_list :: "(tileset list \<Rightarrow> tileset list) \<Rightarrow> sys \<Rightarrow> sys" where
  "caller_changes_list f s = s\<lparr>manager := map_option (change_in_place f) (manager s)\<rparr>"

text \<open>An uncaught exception ends the worker process.\<close>

definition crash :: "nat \<Rightarrow> exn \<Rightarrow> sys \<Rightarrow> sys" where
  "crash i e s = log (Died i e) (set_proc i (Crashed e) s)"

subsection \<open>MultiprocessingDispatcherProcess\<close>

text \<open>
  A worker reaches the manager's list and both queues through proxies of the manager
  (lines 137, 138 and 144). Once \<open>close\<close> has shut the manager down (line 209) a call
  through a proxy cannot be answered: it raises, and the worker dies.

  \<open>update_tilesets\<close> (line 144) replaces the worker's cache by one \<open>get_tilesets\<close> call.
\<close>

definition update_tilesets :: "nat \<Rightarrow> sys \<Rightarrow> sys" where
  "update_tilesets i s =
     (case manager s of
        None \<Rightarrow> crash i IOError s
      | Some m \<Rightarrow>
          (case get_tilesets m of
             (ts, v) \<Rightarrow> log (Fetched i v) (set_proc i (Running ts v) s)))"

text \<open>Lines 171 and 172: the job is run on the cached list and the result is put on the
  result queue. An index outside the cached list raises IndexError.\<close>

definition execute :: "nat \<Rightarrow> job \<Rightarrow> sys \<Rightarrow> sys" where
  "execute i j s =
     (case (procs s ! i, j) of
        (Running ts v, (tv, ti, workitem)) \<Rightarrow>
          if ti < length ts then
            (case do_work (ts ! ti) workitem of
               Inl e \<Rightarrow> crash i e s
             | Inr r \<Rightarrow> log (Executed i j r) (s\<lparr>result_queue := result_queue s @ [r]\<rparr>))
          else crash i IndexError s
      | _ \<Rightarrow> s)"

text \<open>Lines 163 to 172 for a job that has been taken from the queue.\<close>

definition do_job :: "nat \<Rightarrow> job \<Rightarrow> sys \<Rightarrow> sys" where
  "do_job i j s =
     (case (procs s ! i, j) of
        (Running ts v, (tv, ti, workitem)) \<Rightarrow>
          if tv \<noteq> v then
            (let s' = update_tilesets i s in
               case procs s' ! i of
                 Running ts' v' \<Rightarrow>
                   if tv = v' then execute i j s' else crash i AssertionError s'
               | _ \<Rightarrow> s')
          else execute i j s
      | _ \<Rightarrow> s)"

text \<open>
  One step of worker \<open>i\<close>: the first \<open>update_tilesets\<close> of a starting worker, or one pass
  of the loop of \<open>run\<close> (lines 155 to 174). On an empty job queue \<open>get\<close> times out with
  \<open>Queue.Empty\<close>, which the loop ignores; with the manager shut down \<open>get\<close> fails and the
  worker dies. A worker that has returned or died does nothing.
\<close>

definition worker_step :: "nat \<Rightarrow> sys \<Rightarrow> sys" where
  "worker_step i s =
     (if i < length (procs s) then
        (case procs s ! i of
           Starting \<Rightarrow> update_tilesets i s
         | Running ts v \<Rightarrow>
             (case manager s of
                None \<Rightarrow> crash i IOError s
              | Some m \<Rightarrow>
                  (case job_queue s of
                     [] \<Rightarrow> s
                   | None # q \<Rightarrow> log (Stopped i) (set_proc i Exited (s\<lparr>job_queue := q\<rparr>))
                   | Some j # q \<Rightarrow> do_job i j (s\<lparr>job_queue := q\<rparr>)))
         | Exited \<Rightarrow> s
         | Crashed e \<Rightarrow> s)
      else s)"

text \<open>What the workers do while the dispatcher waits once.\<close>

definition wait :: "sys \<Rightarrow> sys" where
  "wait s =
     (case schedule s of
        [] \<Rightarrow> s
      | ws # rest \<Rightarrow> fold worker_step ws (s\<lparr>schedule := rest\<rparr>))"

subsection \<open>MultiprocessingDispatcher\<close>

text \<open>\<open>__init__\<close> (lines 180 to 201). \<open>cpu_count\<close> is what \<open>multiprocessing.cpu_count()\<close>
  returns; the third argument is the environment's schedule.\<close>

definition init :: "int \<Rightarrow> int \<Rightarrow> nat list list \<Rightarrow> sys" where
  "init procs_wanted cpu_count sched =
     (let lp = (if procs_wanted \<le> 0 then cpu_count else procs_wanted) in
        \<lparr>local_procs = lp, outstanding_jobs = 0, manager = Some manager_init,
         pool = Some [0..<nat lp], job_queue = [], result_queue = [],
         procs = replicate (nat lp) Starting, schedule = sched, history = []\<rparr>)"

definition put_sentinel :: "sys \<Rightarrow> sys" where
  "put_sentinel s = log SentinelSent (s\<lparr>job_queue := job_queue s @ [None]\<rparr>)"

text \<open>\<open>close\<close> (lines 203 to 211). After a first \<open>close\<close> the pool is \<open>None\<close> and the loop
  over it raises TypeError.\<close>

definition close :: "sys \<Rightarrow> outcome \<times> sys" where
  "close s =
     (case pool s of
        None \<Rightarrow> (Raised TypeError, s)
      | Some p \<Rightarrow>
          (let s1 = fold (\<lambda>_. put_sentinel) p s in
             case manager s1 of
               None \<Rightarrow> (Raised AttributeError, s1)
             | Some m \<Rightarrow> (Returned, s1\<lparr>manager := None, pool := None\<rparr>)))"

text \<open>\<open>setup_tilesets\<close> (line 214).\<close>

definition setup_tilesets :: "tileset list \<Rightarrow> sys \<Rightarrow> outcome \<times> sys" where
  "setup_tilesets ts s =
     (case manager s of
        None \<Rightarrow> (Raised AttributeError, s)
      | Some m \<Rightarrow>
          (Returned,
           log (Published (tileset_version m + 1)) (s\<lparr>manager := Some (set_tilesets ts m)\<rparr>)))"

text \<open>Lines 218 to 220 of \<open>dispatch\<close>: the tileset is looked up in the manager's list,
  the job is put on the queue and the counter goes up.\<close>

definition submit :: "tileset \<Rightarrow> workitem \<Rightarrow> sys \<Rightarrow> outcome \<times> sys" where
  "submit tileset workitem s =
     (case manager s of
        None \<Rightarrow> (Raised AttributeError, s)
      | Some m \<Rightarrow>
          (case index (tilesets m) tileset of
             None \<Rightarrow> (Raised ValueError, s)
           | Some tileset_index \<Rightarrow>
               (let j = (tileset_version m, tileset_index, workitem) in
                  (Returned,
                   log (Enqueued j)
                     (s\<lparr>job_queue := job_queue s @ [Some j],
                        outstanding_jobs := outstanding_jobs s + 1\<rparr>)))))"

text \<open>One pass of the loop of \<open>_handle_messages\<close> after \<open>get\<close> has stopped waiting (lines
  237 to 241): \<open>None\<close> stands for \<open>Queue.Empty\<close>.\<close>

definition pull :: "sys \<Rightarrow> sys option" where
  "pull s =
     (case result_queue s of
        [] \<Rightarrow> None
      | r # rs \<Rightarrow>
          Some (log (Drained r)
                  (s\<lparr>result_queue := rs, outstanding_jobs := outstanding_jobs s - 1\<rparr>)))"

text \<open>\<open>_handle_messages\<close> (lines 231 to 243): results are taken until the queue is found
  empty. The workers may act before each \<open>get\<close>.\<close>

function handle_messages :: "sys \<Rightarrow> sys" where
  "handle_messages s =
     (let s1 = wait s in
        case pull s1 of
          None \<Rightarrow> s1
        | Some s2 \<Rightarrow> handle_messages s2)"
  by pat_completeness auto

subsection \<open>Counting jobs and results\<close>

text \<open>The jobs dispatched so far are the \<open>Enqueued\<close> events of the history, the results
  drained so far its \<open>Drained\<close> events, the sentinels sent its \<open>SentinelSent\<close> events.
  \<open>load\<close> counts what is under way: the real jobs (not sentinels) waiting in the job
  queue and the results waiting in the result queue.\<close>

fun is_enqueued :: "event \<Rightarrow> bool" where
  "is_enqueued (Enqueued j) = True"
| "is_enqueued e = False"

fun is_drained :: "event \<Rightarrow> bool" where
  "is_drained (Drained r) = True"
| "is_drained e = False"

fun is_sentinel :: "event \<Rightarrow> bool" where
  "is_sentinel SentinelSent = True"
| "is_sentinel e = False"

definition dispatched :: "event list \<Rightarrow> nat" where
  "dispatched h = length (filter is_enqueued h)"

definition drained :: "event list \<Rightarrow> nat" where
  "drained h = length (filter is_drained h)"

fun is_job :: "job option \<Rightarrow> bool" where
  "is_job None = False"
| "is_job (Some j) = True"

definition sentinels :: "event list \<Rightarrow> nat" where
  "sentinels h = length (filter is_sentinel h)"

definition real_jobs :: "job option list \<Rightarrow> nat" where
  "real_jobs q = length (filter is_job q)"

definition load :: "sys \<Rightarrow> nat" where
  "load s = real_jobs (job_queue s) + length (result_queue s)"

lemma dispatched_snoc [simp]:
  "dispatched (h @ [e]) = dispatched h + (if is_enqueued e then 1 else 0)"
  by (simp add: dispatched_def)

lemma drained_snoc [simp]:
  "drained (h @ [e]) = drained h + (if is_drained e then 1 else 0)"
  by (simp add: drained_def)

lemma sentinels_snoc [simp]:
  "sentinels (h @ [e]) = sentinels h + (if is_sentinel e then 1 else 0)"
  by (simp add: sentinels_def)

lemma real_jobs_simps [simp]:
  "real_jobs [] = 0"
  "real_jobs (None # q) = real_jobs q"
  "real_jobs (Some j # q) = Suc (real_jobs q)"
  "real_jobs (q @ q') = real_jobs q + real_jobs q'"
  by (simp_all add: real_jobs_def)

text \<open>A worker step changes no attribute of the dispatcher object, nor the schedule, nor
  the number of worker processes; it enqueues nothing and drains no result, and it only
  adds to the history.\<close>

definition frame :: "sys \<Rightarrow> sys \<Rightarrow> bool" where
  "frame s s' \<longleftrightarrow>
     schedule s' = schedule s \<and> local_procs s' = local_procs s
     \<and> outstanding_jobs s' = outstanding_jobs s \<and> manager s' = manager s
     \<and> pool s' = pool s \<and> length (procs s') = length (procs s)
     \<and> dispatched (history s') = dispatched (history s)
     \<and> drained (history s') = drained (history s)
     \<and> sentinels (history s') = sentinels (history s)
     \<and> prefix (history s) (history s')"

lemma frame_update_tilesets: "frame s (update_tilesets i s)"
  by (simp add: frame_def update_tilesets_def crash_def log_def set_proc_def
      split: option.splits prod.splits)

lemma frame_execute: "frame s (execute i j s)"
  by (simp add: frame_def execute_def crash_def log_def set_proc_def
      split: worker.splits prod.splits sum.splits)

lemma frame_trans: "frame s s' \<Longrightarrow> frame s' s'' \<Longrightarrow> frame s s''"
  by (auto simp: frame_def intro: prefix_order.trans)

lemma frame_crash: "frame s (crash i e s)"
  by (simp add: frame_def crash_def log_def set_proc_def)

lemma frame_do_job: "frame s (do_job i j s)"
proof -
  have a: "frame s (execute i j (update_tilesets i s))"
    by (rule frame_trans [OF frame_update_tilesets frame_execute])
  have b: "frame s (crash i AssertionError (update_tilesets i s))"
    by (rule frame_trans [OF frame_update_tilesets frame_crash])
  show ?thesis
    using a b frame_update_tilesets [of s i] frame_execute [of s i j]
    by (simp add: do_job_def Let_def frame_def split: worker.splits prod.splits)
qed

lemma frame_worker_step: "frame s (worker_step i s)"
proof -
  have a: "frame s (s\<lparr>job_queue := q\<rparr>)" for q
    by (simp add: frame_def)
  have b: "frame s (do_job i j (s\<lparr>job_queue := q\<rparr>))" for j q
    by (rule frame_trans [OF a frame_do_job])
  have c: "frame s (log (Stopped i) (set_proc i Exited (s\<lparr>job_queue := q\<rparr>)))" for q
    by (simp add: frame_def log_def set_proc_def)
  have d: "frame s s" by (simp add: frame_def)
  show ?thesis
    using b c d frame_update_tilesets [of s i] frame_crash [of s i IOError]
    by (simp add: worker_step_def split: worker.splits list.splits option.splits)
qed

lemma frame_fold_worker_step: "frame s (fold worker_step ws s)"
proof (induction ws arbitrary: s)
  case Nil
  show ?case by (simp add: frame_def)
next
  case (Cons w ws)
  show ?case
    using frame_trans [OF frame_worker_step Cons.IH] by simp
qed

lemma schedule_wait: "schedule (wait s) = tl (schedule s)"
proof (cases "schedule s")
  case Nil
  then show ?thesis by (simp add: wait_def)
next
  case (Cons ws rest)
  have "frame (s\<lparr>schedule := rest\<rparr>) (fold worker_step ws (s\<lparr>schedule := rest\<rparr>))"
    by (rule frame_fold_worker_step)
  with Cons show ?thesis by (simp add: wait_def frame_def)
qed

text \<open>Every pass through the loop of \<open>_handle_messages\<close> uses up a turn of the schedule or,
  once the schedule is empty, a result of the queue: the loop ends.\<close>

lemma wait_idle: "schedule s = [] \<Longrightarrow> wait s = s"
  by (simp add: wait_def)

termination handle_messages
proof (relation "measures [\<lambda>s. length (schedule s), \<lambda>s. length (result_queue s)]")
  show "wf (measures [\<lambda>s. length (schedule s), \<lambda>s. length (result_queue s)])"
    by simp
next
  fix s s1 s2 :: sys
  assume s1: "s1 = wait s" and p: "pull s1 = Some s2"
  from p obtain r rs where rq: "result_queue s1 = r # rs"
    and s2: "s2 = log (Drained r) (s1\<lparr>result_queue := rs, outstanding_jobs := outstanding_jobs s1 - 1\<rparr>)"
    by (auto simp: pull_def split: list.splits)
  show "(s2, s) \<in> measures [\<lambda>s. length (schedule s), \<lambda>s. length (result_queue s)]"
  proof (cases "schedule s")
    case Nil
    with s1 have "s1 = s" by (simp add: wait_idle)
    with rq s2 Nil show ?thesis by (simp add: log_def)
  next
    case (Cons ws rest)
    with s1 s2 show ?thesis by (simp add: log_def schedule_wait)
  qed
qed

text \<open>
  The loop of \<open>dispatch\<close> (lines 223 and 224) and \<open>finish_work\<close> (lines 228 and 229) poll
  until the counter is low enough. Neither need return: when no result arrives any more
  they poll forever, which is the value \<open>None\<close>.
\<close>

partial_function (option) throttle :: "sys \<Rightarrow> sys option" where
  "throttle s =
     (if outstanding_jobs s > local_procs s * 10 then throttle (handle_messages s)
      else Some s)"

definition dispatch :: "tileset \<Rightarrow> workitem \<Rightarrow> sys \<Rightarrow> (outcome \<times> sys) option" where
  "dispatch tileset workitem s =
     (case submit tileset workitem s of
        (Raised e, s') \<Rightarrow> Some (Raised e, s')
      | (Returned, s') \<Rightarrow> map_option (Pair Returned) (throttle s'))"

partial_function (option) finish_work :: "sys \<Rightarrow> sys option" where
  "finish_work s =
     (if outstanding_jobs s > 0 then finish_work (handle_messages s) else Some s)"

subsection \<open>Dispatcher.render_all\<close>

text \<open>
  A call that raises stops what follows it, and so does a call that never returns:
  \<open>and_then r f\<close> continues with \<open>f\<close> only after \<open>r\<close> has returned normally.
\<close>

definition and_then ::
  "(outcome \<times> sys) option \<Rightarrow> (sys \<Rightarrow> (outcome \<times> sys) option) \<Rightarrow> (outcome \<times> sys) option" where
  "and_then r f =
     (case r of
        None \<Rightarrow> None
      | Some (Raised e, s) \<Rightarrow> Some (Raised e, s)
      | Some (Returned, s) \<Rightarrow> f s)"

text \<open>Lines 39 and 40.\<close>

definition preprocess :: "tileset list \<Rightarrow> sys \<Rightarrow> sys" where
  "preprocess tilesetlist s = fold (\<lambda>tileset. log (Preprocessed (ts_id tileset))) tilesetlist s"

text \<open>Python's \<open>max\<close> of a list: ValueError on the empty list.\<close>

fun py_max :: "int list \<Rightarrow> exn + int" where
  "py_max [] = Inl ValueError"
| "py_max (x # xs) = Inr (fold max xs x)"

text \<open>Lines 46 to 51: one iterator of \<open>(tileset, workitem)\<close> pairs for each tileset that
  has the phase.\<close>

definition work_iterators ::
  "tileset list \<Rightarrow> int list \<Rightarrow> int \<Rightarrow> (tileset \<times> workitem) list list" where
  "work_iterators tilesetlist num_phases phase =
     [map (Pair tileset) (iterate_work_items tileset phase).
        (i, tileset) \<leftarrow> enumerate 0 tilesetlist, phase < num_phases ! i]"

text \<open>Lines 54 and 55.\<close>

fun dispatch_all :: "(tileset \<times> workitem) list \<Rightarrow> sys \<Rightarrow> (outcome \<times> sys) option" where
  "dispatch_all [] s = Some (Returned, s)"
| "dispatch_all ((tileset, workitem) # rest) s =
     and_then (dispatch tileset workitem s) (dispatch_all rest)"

text \<open>The body of the loop over the phases (lines 45 to 58).\<close>

definition run_phase :: "tileset list \<Rightarrow> int list \<Rightarrow> int \<Rightarrow> sys \<Rightarrow> (outcome \<times> sys) option" where
  "run_phase tilesetlist num_phases phase s =
     and_then (dispatch_all (roundrobin (work_iterators tilesetlist num_phases phase)) s)
       (\<lambda>s'. map_option (Pair Returned) (finish_work s'))"

fun run_phases ::
  "tileset list \<Rightarrow> int list \<Rightarrow> int list \<Rightarrow> sys \<Rightarrow> (outcome \<times> sys) option" where
  "run_phases tilesetlist num_phases [] s = Some (Returned, s)"
| "run_phases tilesetlist num_phases (phase # rest) s =
     and_then (run_phase tilesetlist num_phases phase s) (run_phases tilesetlist num_phases rest)"

text \<open>\<open>render_all\<close> (lines 29 to 58) on the multiprocessing dispatcher. The status callback
  is not used by the source.\<close>

definition render_all :: "tileset list \<Rightarrow> sys \<Rightarrow> (outcome \<times> sys) option" where
  "render_all tilesetlist s =
     and_then (Some (setup_tilesets tilesetlist s))
       (\<lambda>s1.
          let s2 = preprocess tilesetlist s1;
              num_phases = map get_num_phases tilesetlist
          in case py_max num_phases of
               Inl e \<Rightarrow> Some (Raised e, s2)
             | Inr m \<Rightarrow> run_phases tilesetlist num_phases [0 .. m - 1] s2)"

text \<open>A worker step turns at most one waiting job into at most one waiting result.\<close>

lemma load_update_tilesets: "load (update_tilesets i s) = load s"
  by (simp add: load_def update_tilesets_def crash_def log_def set_proc_def
      split: option.splits prod.splits)

lemma load_crash: "load (crash i e s) = load s"
  by (simp add: load_def crash_def log_def set_proc_def)

lemma load_execute: "load (execute i j s) \<le> Suc (load s)"
  by (simp add: load_def execute_def crash_def log_def set_proc_def
      split: worker.splits prod.splits sum.splits)

lemma load_do_job: "load (do_job i j s) \<le> Suc (load s)"
proof -
  have a: "load (execute i j (update_tilesets i s)) \<le> Suc (load s)"
    using load_execute [of i j "update_tilesets i s"] by (simp add: load_update_tilesets)
  have b: "load (crash i AssertionError (update_tilesets i s)) \<le> Suc (load s)"
    by (simp add: load_crash load_update_tilesets)
  have c: "load (update_tilesets i s) \<le> Suc (load s)"
    by (simp add: load_update_tilesets)
  show ?thesis
    using a b c load_execute [of i j s]
    by (simp add: do_job_def Let_def split: worker.splits prod.splits)
qed

lemma load_worker_step: "load (worker_step i s) \<le> load s"
proof -
  have b: "load (do_job i j (s\<lparr>job_queue := q\<rparr>)) \<le> load s" if "job_queue s = Some j # q" for j q
    using load_do_job [of i j "s\<lparr>job_queue := q\<rparr>"] that by (simp add: load_def)
  have c: "load (log (Stopped i) (set_proc i Exited (s\<lparr>job_queue := q\<rparr>))) \<le> load s"
    if "job_queue s = None # q" for q
    using that by (simp add: load_def log_def set_proc_def)
  show ?thesis
    using b c
    by (simp add: worker_step_def load_update_tilesets load_crash
        split: worker.splits list.splits option.splits)
qed

text \<open>The invariant of the completion accounting: the counter is the number of jobs
  enqueued minus the number of results drained, and everything that is under way is
  counted in it.\<close>

definition accounted :: "sys \<Rightarrow> bool" where
  "accounted s \<longleftrightarrow>
     outstanding_jobs s = int (dispatched (history s)) - int (drained (history s))
     \<and> int (load s) \<le> outstanding_jobs s"

lemma accounted_frame:
  "accounted s \<Longrightarrow> frame s s' \<Longrightarrow> load s' \<le> load s \<Longrightarrow> accounted s'"
  by (simp add: accounted_def frame_def)

lemma accounted_worker_step: "accounted s \<Longrightarrow> accounted (worker_step i s)"
  by (rule accounted_frame [OF _ frame_worker_step load_worker_step])

lemma accounted_fold_worker_step: "accounted s \<Longrightarrow> accounted (fold worker_step ws s)"
  by (induction ws arbitrary: s) (simp_all add: accounted_worker_step)

lemma accounted_wait: "accounted s \<Longrightarrow> accounted (wait s)"
proof (cases "schedule s")
  case Nil
  assume "accounted s"
  with Nil show ?thesis by (simp add: wait_def)
next
  case (Cons ws rest)
  assume "accounted s"
  then have "accounted (s\<lparr>schedule := rest\<rparr>)"
    by (simp add: accounted_def load_def)
  then show ?thesis
    using Cons by (simp add: wait_def accounted_fold_worker_step)
qed

lemma accounted_init: "accounted (init n c sched)"
  by (simp add: accounted_def init_def Let_def load_def dispatched_def drained_def)

lemma accounted_submit: "accounted s \<Longrightarrow> accounted (snd (submit tileset workitem s))"
  by (simp add: accounted_def submit_def Let_def load_def log_def split: option.splits)

lemma accounted_pull: "accounted s \<Longrightarrow> pull s = Some s' \<Longrightarrow> accounted s'"
  by (auto simp: accounted_def pull_def load_def log_def split: list.splits)

lemma accounted_log:
  "accounted s \<Longrightarrow> \<not> is_enqueued e \<Longrightarrow> \<not> is_drained e \<Longrightarrow> accounted (log e s)"
  by (simp add: accounted_def log_def load_def)

lemma accounted_setup_tilesets: "accounted s \<Longrightarrow> accounted (snd (setup_tilesets ts s))"
  by (simp add: accounted_def setup_tilesets_def load_def log_def split: option.splits)

lemma accounted_put_sentinel: "accounted s \<Longrightarrow> accounted (put_sentinel s)"
  by (simp add: accounted_def put_sentinel_def load_def log_def)

lemma accounted_fold_put_sentinel:
  "accounted s \<Longrightarrow> accounted (fold (\<lambda>_. put_sentinel) p s)"
  by (induction p arbitrary: s) (simp_all add: accounted_put_sentinel)

lemma accounted_close: "accounted s \<Longrightarrow> accounted (snd (close s))"
proof -
  assume a: "accounted s"
  have "accounted (s1\<lparr>manager := None, pool := None\<rparr>)" if "accounted s1" for s1
    using that by (simp add: accounted_def load_def)
  with a accounted_fold_put_sentinel show ?thesis
    by (auto simp: close_def Let_def split: option.splits)
qed

subsection \<open>Runs of the system\<close>

text \<open>
  The states of a run: a new dispatcher, and from there any interleaving of worker steps
  with the steps of the dispatcher's methods and with in-place changes that the caller
  makes to its tileset list. A submit (lines 218 to 220) and a pull
  (lines 237 to 241) are taken as one step each: the counter belongs to the dispatcher
  alone, and no other process can look at it between the queue operation and the update.
\<close>

inductive reachable :: "sys \<Rightarrow> bool" where
  r_init: "reachable (init n c sched)"
| r_worker: "reachable s \<Longrightarrow> reachable (worker_step i s)"
| r_wait: "reachable s \<Longrightarrow> reachable (wait s)"
| r_submit: "reachable s \<Longrightarrow> reachable (snd (submit tileset workitem s))"
| r_pull: "reachable s \<Longrightarrow> pull s = Some s' \<Longrightarrow> reachable s'"
| r_setup: "reachable s \<Longrightarrow> reachable (snd (setup_tilesets ts s))"
| r_change: "reachable s \<Longrightarrow> reachable (caller_changes_list f s)"
| r_preprocess: "reachable s \<Longrightarrow> reachable (log (Preprocessed k) s)"
| r_sentinel: "reachable s \<Longrightarrow> reachable (put_sentinel s)"
| r_close: "reachable s \<Longrightarrow> reachable (snd (close s))"

lemma reachable_accounted: "reachable s \<Longrightarrow> accounted s"
proof (induction rule: reachable.induct)
  case (r_init n c sched)
  show ?case by (rule accounted_init)
next
  case (r_worker s i)
  then show ?case by (simp add: accounted_worker_step)
next
  case (r_wait s)
  then show ?case by (simp add: accounted_wait)
next
  case (r_submit s tileset workitem)
  then show ?case by (simp add: accounted_submit)
next
  case (r_pull s s')
  then show ?case by (simp add: accounted_pull)
next
  case (r_setup s ts)
  then show ?case by (simp add: accounted_setup_tilesets)
next
  case (r_change s f)
  then show ?case by (simp add: accounted_def load_def caller_changes_list_def)
next
  case (r_preprocess s k)
  then show ?case by (simp add: accounted_log)
next
  case (r_sentinel s)
  then show ?case by (simp add: accounted_put_sentinel)
next
  case (r_close s)
  then show ?case by (simp add: accounted_close)
qed

lemma reachable_handle_messages: "reachable s \<Longrightarrow> reachable (handle_messages s)"
proof (induction s rule: handle_messages.induct)
  case (1 s)
  show ?case
  proof (cases "pull (wait s)")
    case None
    with "1.prems" show ?thesis
      by (subst handle_messages.simps) (simp add: r_wait)
  next
    case (Some s2)
    have "reachable s2"
      using r_pull [OF r_wait [OF "1.prems"] Some] .
    with "1.IH" [OF refl Some] Some show ?thesis
      by (subst handle_messages.simps) simp
  qed
qed

text \<open>The two polling loops: what every \<open>_handle_messages\<close> call keeps, a returning loop
  keeps; and a loop returns only with its condition false.\<close>

lemma throttle_preserves:
  assumes run: "throttle s = Some s'"
    and step: "\<And>s. P s \<Longrightarrow> P (handle_messages s)"
  shows "P s \<longrightarrow> P s'"
proof (rule throttle.raw_induct [OF _ run])
  fix f s sa
  assume IH: "\<And>x y. f x = Some y \<Longrightarrow> P x \<longrightarrow> P y"
    and eq: "(if local_procs s * 10 < outstanding_jobs s then f (handle_messages s) else Some s)
             = Some sa"
  show "P s \<longrightarrow> P sa"
  proof (cases "local_procs s * 10 < outstanding_jobs s")
    case True
    with eq have "f (handle_messages s) = Some sa" by simp
    from IH [OF this] step show ?thesis by blast
  next
    case False
    with eq show ?thesis by simp
  qed
qed

lemma finish_work_preserves:
  assumes run: "finish_work s = Some s'"
    and step: "\<And>s. P s \<Longrightarrow> P (handle_messages s)"
  shows "P s \<longrightarrow> P s'"
proof (rule finish_work.raw_induct [OF _ run])
  fix f s sa
  assume IH: "\<And>x y. f x = Some y \<Longrightarrow> P x \<longrightarrow> P y"
    and eq: "(if 0 < outstanding_jobs s then f (handle_messages s) else Some s) = Some sa"
  show "P s \<longrightarrow> P sa"
  proof (cases "0 < outstanding_jobs s")
    case True
    with eq have "f (handle_messages s) = Some sa" by simp
    from IH [OF this] step show ?thesis by blast
  next
    case False
    with eq show ?thesis by simp
  qed
qed

lemma reachable_throttle: "throttle s = Some s' \<Longrightarrow> reachable s \<Longrightarrow> reachable s'"
  using throttle_preserves [of s s' reachable] reachable_handle_messages by blast

lemma reachable_finish_work: "finish_work s = Some s' \<Longrightarrow> reachable s \<Longrightarrow> reachable s'"
  using finish_work_preserves [of s s' reachable] reachable_handle_messages by blast

lemma throttle_bound:
  assumes run: "throttle s = Some s'"
  shows "outstanding_jobs s' \<le> local_procs s' * 10"
proof (rule throttle.raw_induct [OF _ run])
  fix f s sa
  assume IH: "\<And>x y. f x = Some y \<Longrightarrow> outstanding_jobs y \<le> local_procs y * 10"
    and eq: "(if local_procs s * 10 < outstanding_jobs s then f (handle_messages s) else Some s)
             = Some sa"
  show "outstanding_jobs sa \<le> local_procs sa * 10"
  proof (cases "local_procs s * 10 < outstanding_jobs s")
    case True
    with eq have "f (handle_messages s) = Some sa" by simp
    then show ?thesis by (rule IH)
  next
    case False
    with eq show ?thesis by auto
  qed
qed

lemma finish_work_bound:
  assumes run: "finish_work s = Some s'"
  shows "outstanding_jobs s' \<le> 0"
proof (rule finish_work.raw_induct [OF _ run])
  fix f s sa
  assume IH: "\<And>x y. f x = Some y \<Longrightarrow> outstanding_jobs y \<le> 0"
    and eq: "(if 0 < outstanding_jobs s then f (handle_messages s) else Some s) = Some sa"
  show "outstanding_jobs sa \<le> 0"
  proof (cases "0 < outstanding_jobs s")
    case True
    with eq have "f (handle_messages s) = Some sa" by simp
    then show ?thesis by (rule IH)
  next
    case False
    with eq show ?thesis by auto
  qed
qed

subsection \<open>What the dispatcher's methods keep\<close>

text \<open>
  \<open>continues s s'\<close>: from \<open>s\<close> to \<open>s'\<close> the worker count, the pool and the presence of the
  manager are the same, no sentinel has been sent, the history has only grown, and \<open>s'\<close>
  is a state of a run if \<open>s\<close> is. Every method of the dispatcher but \<open>close\<close> relates the
  state it is called in to the state it returns or raises in this way.
\<close>

definition continues :: "sys \<Rightarrow> sys \<Rightarrow> bool" where
  "continues s s' \<longleftrightarrow>
     local_procs s' = local_procs s \<and> pool s' = pool s
     \<and> (manager s' = None) = (manager s = None)
     \<and> length (procs s') = length (procs s)
     \<and> sentinels (history s') = sentinels (history s)
     \<and> prefix (history s) (history s')
     \<and> (reachable s \<longrightarrow> reachable s')"

lemma continues_refl: "continues s s"
  by (simp add: continues_def)

lemma continues_trans: "continues s s' \<Longrightarrow> continues s' s'' \<Longrightarrow> continues s s''"
  by (auto simp: continues_def intro: prefix_order.trans)

lemma continues_wait: "continues s (wait s)"
proof (cases "schedule s")
  case Nil
  then show ?thesis by (simp add: wait_def continues_refl)
next
  case (Cons ws rest)
  have "frame (s\<lparr>schedule := rest\<rparr>) (fold worker_step ws (s\<lparr>schedule := rest\<rparr>))"
    by (rule frame_fold_worker_step)
  with Cons show ?thesis
    using r_wait [of s] by (simp add: wait_def frame_def continues_def)
qed

lemma continues_pull: "pull s = Some s' \<Longrightarrow> continues s s'"
  using r_pull [of s s']
  by (auto simp: pull_def continues_def log_def split: list.splits)

lemma continues_handle_messages: "continues s (handle_messages s)"
proof (induction s rule: handle_messages.induct)
  case (1 s)
  show ?case
  proof (cases "pull (wait s)")
    case None
    then show ?thesis
      by (subst handle_messages.simps) (simp add: continues_wait)
  next
    case (Some s2)
    have "continues s s2"
      by (rule continues_trans [OF continues_wait continues_pull [OF Some]])
    from continues_trans [OF this "1.IH" [OF refl Some]] Some show ?thesis
      by (subst handle_messages.simps) simp
  qed
qed

lemma continues_throttle: "throttle s = Some s' \<Longrightarrow> continues s s'"
  using throttle_preserves [of s s' "continues s"] continues_handle_messages
  by (blast intro: continues_trans continues_refl)

lemma continues_finish_work: "finish_work s = Some s' \<Longrightarrow> continues s s'"
  using finish_work_preserves [of s s' "continues s"] continues_handle_messages
  by (blast intro: continues_trans continues_refl)

lemma continues_submit: "continues s (snd (submit tileset workitem s))"
  using r_submit [of s tileset workitem]
  by (simp add: continues_def) (simp add: submit_def Let_def log_def split: option.splits)

lemma continues_dispatch:
  assumes "dispatch tileset workitem s = Some (out, s')"
  shows "continues s s'"
proof (cases "submit tileset workitem s")
  case (Pair o1 s1)
  have c1: "continues s s1"
    using continues_submit [of s tileset workitem] Pair by simp
  show ?thesis
  proof (cases o1)
    case Returned
    with assms Pair have "throttle s1 = Some s'"
      by (auto simp: dispatch_def)
    from continues_trans [OF c1 continues_throttle [OF this]] show ?thesis .
  next
    case (Raised e)
    with assms Pair have "s' = s1" by (simp add: dispatch_def)
    with c1 show ?thesis by simp
  qed
qed

lemma and_then_Some:
  assumes "and_then r f = Some (out, s'')"
  obtains "r = Some (out, s'')" "out \<noteq> Returned"
  | s' where "r = Some (Returned, s')" "f s' = Some (out, s'')"
  using assms
  by (auto simp: and_then_def split: option.splits outcome.splits)

lemma continues_dispatch_all:
  "dispatch_all items s = Some (out, s') \<Longrightarrow> continues s s'"
proof (induction items arbitrary: s)
  case Nil
  then show ?case by (simp add: continues_refl)
next
  case (Cons item items)
  obtain tileset workitem where item: "item = (tileset, workitem)" by (cases item)
  from Cons.prems item
  have "and_then (dispatch tileset workitem s) (dispatch_all items) = Some (out, s')"
    by simp
  then show ?case
  proof (cases rule: and_then_Some)
    case 1
    then show ?thesis by (simp add: continues_dispatch)
  next
    case (2 s1)
    from continues_trans [OF continues_dispatch [OF 2(1)] Cons.IH [OF 2(2)]]
    show ?thesis .
  qed
qed

lemma continues_run_phase:
  assumes "run_phase tilesetlist num_phases phase s = Some (out, s')"
  shows "continues s s'"
  using assms unfolding run_phase_def
proof (cases rule: and_then_Some)
  case 1
  then show ?thesis by (simp add: continues_dispatch_all)
next
  case (2 s1)
  from 2(2) have "finish_work s1 = Some s'" by auto
  from continues_trans [OF continues_dispatch_all [OF 2(1)] continues_finish_work [OF this]]
  show ?thesis .
qed

lemma continues_run_phases:
  "run_phases tilesetlist num_phases phases s = Some (out, s') \<Longrightarrow> continues s s'"
proof (induction phases arbitrary: s)
  case Nil
  then show ?case by (simp add: continues_refl)
next
  case (Cons phase phases)
  from Cons.prems
  have "and_then (run_phase tilesetlist num_phases phase s)
          (run_phases tilesetlist num_phases phases) = Some (out, s')"
    by simp
  then show ?case
  proof (cases rule: and_then_Some)
    case 1
    then show ?thesis by (simp add: continues_run_phase)
  next
    case (2 s1)
    from continues_trans [OF continues_run_phase [OF 2(1)] Cons.IH [OF 2(2)]]
    show ?thesis .
  qed
qed

lemma continues_setup_tilesets: "continues s (snd (setup_tilesets ts s))"
  using r_setup [of s ts]
  by (simp add: continues_def) (simp add: setup_tilesets_def log_def split: option.splits)

lemma continues_preprocess: "continues s (preprocess tilesetlist s)"
  unfolding preprocess_def
proof (induction tilesetlist arbitrary: s)
  case Nil
  show ?case by (simp add: continues_refl)
next
  case (Cons t ts)
  have "continues s (log (Preprocessed (ts_id t)) s)"
    using r_preprocess [of s "ts_id t"] by (simp add: continues_def log_def)
  from continues_trans [OF this Cons.IH] show ?case by simp
qed

lemma continues_render_all:
  assumes "render_all tilesetlist s = Some (out, s')"
  shows "continues s s'"
  using assms unfolding render_all_def
proof (cases rule: and_then_Some)
  case 1
  then show ?thesis
    using continues_setup_tilesets [of s tilesetlist] by simp
next
  case (2 s1)
  have a: "continues s s1"
    using continues_setup_tilesets [of s tilesetlist] 2(1) by simp
  have b: "continues s1 (preprocess tilesetlist s1)"
    by (rule continues_preprocess)
  show ?thesis
  proof (cases "py_max (map get_num_phases tilesetlist)")
    case (Inl e)
    with 2(2) have "s' = preprocess tilesetlist s1" by (simp add: Let_def)
    with continues_trans [OF a b] show ?thesis by simp
  next
    case (Inr m)
    with 2(2) have "run_phases tilesetlist (map get_num_phases tilesetlist) [0 .. m - 1]
        (preprocess tilesetlist s1) = Some (out, s')"
      by (simp add: Let_def)
    from continues_trans [OF continues_trans [OF a b] continues_run_phases [OF this]]
    show ?thesis .
  qed
qed

text \<open>The pool and the worker processes: one process for each unit of \<open>local_procs\<close>; the
  pool lists them until \<open>close\<close>, which drops the pool and the manager together.\<close>

definition staffed :: "sys \<Rightarrow> bool" where
  "staffed s \<longleftrightarrow>
     length (procs s) = nat (local_procs s)
     \<and> (pool s = None) = (manager s = None)
     \<and> (case pool s of None \<Rightarrow> True | Some p \<Rightarrow> length p = length (procs s))"

lemma staffed_continues: "staffed s \<Longrightarrow> continues s s' \<Longrightarrow> staffed s'"
  by (auto simp: staffed_def continues_def split: option.splits)

lemma continues_frame: "frame s s' \<Longrightarrow> reachable s' \<Longrightarrow> continues s s'"
  by (simp add: frame_def continues_def)

lemma fold_put_sentinel:
  "fold (\<lambda>_. put_sentinel) p s =
     s\<lparr>job_queue := job_queue s @ replicate (length p) None,
       history := history s @ replicate (length p) SentinelSent\<rparr>"
proof (induction p arbitrary: s)
  case Nil
  show ?case by simp
next
  case (Cons x p)
  show ?case
    by (simp add: Cons.IH) (simp add: put_sentinel_def log_def replicate_append_same)
qed

lemma close_open:
  assumes "pool s = Some p" "manager s = Some m"
  shows "close s = (Returned,
     s\<lparr>job_queue := job_queue s @ replicate (length p) None,
       history := history s @ replicate (length p) SentinelSent,
       manager := None, pool := None\<rparr>)"
  using assms by (simp add: close_def fold_put_sentinel)

lemma staffed_close: "staffed s \<Longrightarrow> staffed (snd (close s))"
proof (cases "pool s")
  case None
  assume "staffed s"
  with None show ?thesis by (simp add: close_def)
next
  case (Some p)
  assume st: "staffed s"
  with Some obtain m where "manager s = Some m" by (auto simp: staffed_def)
  from close_open [OF Some this] st show ?thesis by (simp add: staffed_def)
qed

lemma reachable_staffed: "reachable s \<Longrightarrow> staffed s"
proof (induction rule: reachable.induct)
  case (r_init n c sched)
  show ?case by (simp add: staffed_def init_def Let_def)
next
  case (r_worker s i)
  have "continues s (worker_step i s)"
    by (rule continues_frame [OF frame_worker_step reachable.r_worker [OF r_worker.hyps]])
  with r_worker.IH show ?case by (rule staffed_continues)
next
  case (r_wait s)
  with continues_wait show ?case by (blast intro: staffed_continues)
next
  case (r_submit s tileset workitem)
  with continues_submit show ?case by (blast intro: staffed_continues)
next
  case (r_pull s s')
  with continues_pull show ?case by (blast intro: staffed_continues)
next
  case (r_setup s ts)
  with continues_setup_tilesets show ?case by (blast intro: staffed_continues)
next
  case (r_change s f)
  then show ?case
    by (auto simp: staffed_def caller_changes_list_def split: option.splits)
next
  case (r_preprocess s k)
  then show ?case by (auto simp: staffed_def log_def split: option.splits)
next
  case (r_sentinel s)
  then show ?case by (auto simp: staffed_def put_sentinel_def log_def split: option.splits)
next
  case (r_close s)
  then show ?case by (simp add: staffed_close)
qed

subsection \<open>Dispatching\<close>

lemmas model_defs =
  init_def manager_init_def setup_tilesets_def set_tilesets_def set_tilesets_113_def
  set_tilesets_114_def set_tilesets_115_def set_tilesets_116_def get_tilesets_def
  log_def set_proc_def crash_def update_tilesets_def execute_def do_job_def worker_step_def
  wait_def submit_def pull_def dispatch_def and_then_def preprocess_def work_iterators_def
  run_phase_def render_all_def put_sentinel_def close_def Let_def

lemma index_None: "index ts t = None \<longleftrightarrow> ts_id t \<notin> ts_id ` set ts"
  by (induction ts) auto

lemma index_Some: "index ts t = Some k \<Longrightarrow> k < length ts \<and> ts_id (ts ! k) = ts_id t"
proof (induction ts arbitrary: k)
  case Nil
  then show ?case by simp
next
  case (Cons x xs)
  then show ?case by (auto split: if_splits)
qed

text \<open>A second tileset: two phases, with the work items 1 and 2 in phase 0 and 3 in
  phase 1.\<close>

definition ts_B :: tileset where
  "ts_B = \<lparr>ts_id = 1, get_num_phases = 2,
           iterate_work_items = (\<lambda>p. if p = 0 then [1, 2] else if p = 1 then [3] else []),
           do_work = (\<lambda>w. Inr (w + 200))\<rparr>"

text \<open>A dispatcher with one worker on which the list \<open>[ts_A]\<close> has been published; and the
  same after the caller has appended \<open>ts_B\<close> to that list object.\<close>

definition ex_published :: sys where
  "ex_published = snd (setup_tilesets [ts_A] (init 1 1 []))"

definition ex_appended :: sys where
  "ex_appended = caller_changes_list (\<lambda>l. l @ [ts_B]) ex_published"

text \<open>
  C7, as stated: a source that is not in the most recently published list makes
  \<open>dispatch\<close> raise, with nothing enqueued and the counter unchanged. It fails when the
  caller has changed its list in place after the publish: with \<open>[ts_A]\<close> published and
  \<open>ts_B\<close> appended to the caller's list afterwards, \<open>ts_B\<close> is not in the published list,
  yet \<open>dispatch\<close> finds it at index 1 of the manager's list, returns normally, enqueues
  the job \<open>(1, 1, 3)\<close> and raises the counter to 1.
\<close>

theorem dispatch_unpublished_tileset:
  "reachable ex_appended
   \<and> manager ex_appended
       = Some \<lparr>tilesets = [ts_A, ts_B], tileset_version = 1, tileset_data = ([ts_A], 1)\<rparr>
   \<and> ts_id ts_B \<notin> ts_id ` set (fst (get_tilesets
         \<lparr>tilesets = [ts_A, ts_B], tileset_version = 1, tileset_data = ([ts_A], 1)\<rparr>))
   \<and> dispatch ts_B 3 ex_appended
       = Some (Returned,
               ex_appended\<lparr>job_queue := [Some (1, 1, 3)], outstanding_jobs := 1,
                           history := [Published 1, Enqueued (1, 1, 3)]\<rparr>)"
proof -
  have r: "reachable ex_appended"
    unfolding ex_appended_def ex_published_def by (rule r_change [OF r_setup [OF r_init]])
  have m: "manager ex_appended
       = Some \<lparr>tilesets = [ts_A, ts_B], tileset_version = 1, tileset_data = ([ts_A], 1)\<rparr>"
    by (simp add: ex_appended_def ex_published_def caller_changes_list_def
        change_in_place_def model_defs)
  have n: "ts_id ts_B \<notin> ts_id ` set (fst (get_tilesets
         \<lparr>tilesets = [ts_A, ts_B], tileset_version = 1, tileset_data = ([ts_A], 1)\<rparr>))"
    by (simp add: get_tilesets_def ts_A_def ts_B_def)
  have d: "dispatch ts_B 3 ex_appended
       = Some (Returned,
               ex_appended\<lparr>job_queue := [Some (1, 1, 3)], outstanding_jobs := 1,
                           history := [Published 1, Enqueued (1, 1, 3)]\<rparr>)"
    by (simp add: ex_appended_def ex_published_def caller_changes_list_def
        change_in_place_def model_defs ts_A_def ts_B_def throttle.simps)
  from r m n d show ?thesis by blast
qed

text \<open>
  C7, amended: \<open>dispatch\<close> looks the source up in the manager's own list, which is the
  list object handed to the last \<open>set_tilesets\<close> with the contents it has at the time of
  the call. A source that is not in that list makes \<open>dispatch\<close> raise ValueError, and the
  state in which it raises is the state in which it was called: no job has been put on
  the queue and the counter is what it was. As long as the caller has not changed its
  list in place since the publish, the manager's list is the published one, and a source
  that is not in the published list makes \<open>dispatch\<close> raise in the same way.
\<close>

theorem dispatch_unknown_tileset:
  assumes "manager s = Some m"
  shows "(ts_id tileset \<notin> ts_id ` set (tilesets m)
            \<longrightarrow> dispatch tileset workitem s = Some (Raised ValueError, s))
    \<and> (consistent m \<and> ts_id tileset \<notin> ts_id ` set (fst (get_tilesets m))
            \<longrightarrow> dispatch tileset workitem s = Some (Raised ValueError, s))"
proof -
  have a: "dispatch tileset workitem s = Some (Raised ValueError, s)"
    if "ts_id tileset \<notin> ts_id ` set (tilesets m)"
  proof -
    from that have "index (tilesets m) tileset = None"
      by (simp add: index_None)
    with assms show ?thesis
      by (simp add: dispatch_def submit_def)
  qed
  have "fst (get_tilesets m) = tilesets m" if "consistent m"
    using that by (simp add: consistent_def get_tilesets_def)
  with a show ?thesis by auto
qed

theorem dispatch_unknown_tileset_witness:
  "manager ex_published
     = Some \<lparr>tilesets = [ts_A], tileset_version = 1, tileset_data = ([ts_A], 1)\<rparr>
   \<and> consistent \<lparr>tilesets = [ts_A], tileset_version = 1, tileset_data = ([ts_A], 1)\<rparr>
   \<and> ts_id ts_B \<notin> ts_id ` set [ts_A]
   \<and> ts_id ts_B \<notin> ts_id ` set (fst (get_tilesets
        \<lparr>tilesets = [ts_A], tileset_version = 1, tileset_data = ([ts_A], 1)\<rparr>))
   \<and> dispatch ts_B 3 ex_published = Some (Raised ValueError, ex_published)"
proof -
  have m: "manager ex_published
     = Some \<lparr>tilesets = [ts_A], tileset_version = 1, tileset_data = ([ts_A], 1)\<rparr>"
    by (simp add: ex_published_def model_defs)
  have c: "consistent \<lparr>tilesets = [ts_A], tileset_version = 1, tileset_data = ([ts_A], 1)\<rparr>"
    by (simp add: consistent_def)
  have n: "ts_id ts_B \<notin> ts_id ` set (tilesets
      \<lparr>tilesets = [ts_A], tileset_version = 1, tileset_data = ([ts_A], 1)\<rparr>)"
    by (simp add: ts_A_def ts_B_def)
  have g: "ts_id ts_B \<notin> ts_id ` set (fst (get_tilesets
        \<lparr>tilesets = [ts_A], tileset_version = 1, tileset_data = ([ts_A], 1)\<rparr>))"
    by (simp add: get_tilesets_def ts_A_def ts_B_def)
  from dispatch_unknown_tileset [OF m, of ts_B 3] m c n g show ?thesis by simp
qed

text \<open>
  C5. When \<open>dispatch\<close> returns, the counter is at most ten times \<open>local_procs\<close>, the number
  of workers, which the call does not change.
\<close>

theorem dispatch_backpressure:
  assumes "dispatch tileset workitem s = Some (Returned, s')"
  shows "outstanding_jobs s' \<le> local_procs s' * 10 \<and> local_procs s' = local_procs s"
proof -
  obtain o1 s1 where sub: "submit tileset workitem s = (o1, s1)"
    by (cases "submit tileset workitem s")
  with assms have t: "throttle s1 = Some s'"
    by (cases o1) (auto simp: dispatch_def)
  have "continues s s'"
    by (rule continues_dispatch [OF assms])
  with throttle_bound [OF t] show ?thesis
    by (simp add: continues_def)
qed

text \<open>A dispatcher with one worker, ten jobs under way and the worker about to run once:
  the eleventh \<open>dispatch\<close> has to drain a result before it returns.\<close>

definition ex_busy :: sys where
  "ex_busy = \<lparr>local_procs = 1, outstanding_jobs = 10,
     manager = Some \<lparr>tilesets = [ts_A], tileset_version = 1, tileset_data = ([ts_A], 1)\<rparr>,
     pool = Some [0], job_queue = replicate 10 (Some (1, 0, 7)), result_queue = [],
     procs = [Running [ts_A] 1], schedule = [[0]],
     history = [Published 1, Fetched 0 1] @ replicate 10 (Enqueued (1, 0, 7))\<rparr>"

definition ex_busy_after :: sys where
  "ex_busy_after = \<lparr>local_procs = 1, outstanding_jobs = 10,
     manager = Some \<lparr>tilesets = [ts_A], tileset_version = 1, tileset_data = ([ts_A], 1)\<rparr>,
     pool = Some [0], job_queue = replicate 10 (Some (1, 0, 7)), result_queue = [],
     procs = [Running [ts_A] 1], schedule = [],
     history = [Published 1, Fetched 0 1] @ replicate 11 (Enqueued (1, 0, 7))
               @ [Executed 0 (1, 0, 7) 107, Drained 107]\<rparr>"

lemma ex_busy_dispatch: "dispatch ts_A 7 ex_busy = Some (Returned, ex_busy_after)"
  by (simp add: ex_busy_def ex_busy_after_def model_defs ts_A_def throttle.simps
      handle_messages.simps eval_nat_numeral)

theorem dispatch_backpressure_witness:
  "dispatch ts_A 7 ex_busy = Some (Returned, ex_busy_after)
   \<and> outstanding_jobs ex_busy_after = 10 \<and> local_procs ex_busy_after * 10 = 10"
proof -
  have "outstanding_jobs ex_busy_after = 10" "local_procs ex_busy_after = 1"
    by (simp_all add: ex_busy_after_def)
  with dispatch_backpressure [OF ex_busy_dispatch] ex_busy_dispatch show ?thesis by simp
qed

subsection \<open>Completion accounting\<close>







subsection \<open>The phase barrier\<close>

lemma and_then_assoc: "and_then (and_then r f) g = and_then r (\<lambda>s. and_then (f s) g)"
  by (simp add: and_then_def split: option.splits outcome.splits)

lemma run_phases_append:
  "run_phases tilesetlist num_phases (ps @ qs) s =
     and_then (run_phases tilesetlist num_phases ps s) (run_phases tilesetlist num_phases qs)"
proof (induction ps arbitrary: s)
  case Nil
  show ?case by (simp add: and_then_def)
next
  case (Cons p ps)
  have "run_phases tilesetlist num_phases (ps @ qs) =
        (\<lambda>s. and_then (run_phases tilesetlist num_phases ps s)
                (run_phases tilesetlist num_phases qs))"
    by (rule ext) (rule Cons.IH)
  then show ?case by (simp add: and_then_assoc)
qed

lemma run_phase_drained:
  assumes "run_phase tilesetlist num_phases phase s = Some (Returned, s')"
  shows "outstanding_jobs s' \<le> 0"
  using assms unfolding run_phase_def
proof (cases rule: and_then_Some)
  case 1
  then show ?thesis by simp
next
  case (2 s1)
  from 2(2) have "finish_work s1 = Some s'" by auto
  then show ?thesis by (rule finish_work_bound)
qed

lemma run_phases_drained:
  "ps \<noteq> [] \<Longrightarrow> run_phases tilesetlist num_phases ps s = Some (Returned, s')
   \<Longrightarrow> outstanding_jobs s' \<le> 0"
proof (induction ps arbitrary: s)
  case Nil
  then show ?case by simp
next
  case (Cons p ps)
  from Cons.prems(2)
  have "and_then (run_phase tilesetlist num_phases p s)
          (run_phases tilesetlist num_phases ps) = Some (Returned, s')"
    by simp
  then show ?case
  proof (cases rule: and_then_Some)
    case 1
    then show ?thesis by simp
  next
    case (2 s1)
    show ?thesis
    proof (cases "ps = []")
      case True
      with 2(2) have "s' = s1" by simp
      with run_phase_drained [OF 2(1)] show ?thesis by simp
    next
      case False
      from Cons.IH [OF False 2(2)] show ?thesis .
    qed
  qed
qed

text \<open>In a state of a run in which the counter is not positive nothing is under way:
  every job enqueued has had its result drained, no job waits and no result waits.\<close>

lemma drained_all:
  assumes "reachable s" and "outstanding_jobs s \<le> 0"
  shows "outstanding_jobs s = 0 \<and> drained (history s) = dispatched (history s) \<and> load s = 0"
  using reachable_accounted [OF assms(1)] assms(2) by (simp add: accounted_def)

text \<open>
  C1. Let \<open>render_all\<close> be called in a state of a run, on a list for which the setup goes
  through and that has a maximal phase count \<open>m\<close>, and cut the phases \<open>0, ..., m - 1\<close>
  anywhere into a non-empty first part \<open>ps\<close> and a rest \<open>qs\<close>. Then \<open>render_all\<close> is the run
  of the phases \<open>ps\<close> followed, only if that run returns, by the run of the phases \<open>qs\<close>
  from the state it returned in. In that state the counter is 0, every job enqueued so
  far has had its result drained, and no job or result waits in a queue; whatever the
  phases \<open>qs\<close> do is added to the history behind that point. And \<open>finish_work\<close> returns in
  a state of a run only with the counter at 0.
\<close>

theorem phase_barrier:
  assumes "reachable s"
    and "setup_tilesets tilesetlist s = (Returned, s1)"
    and "py_max (map get_num_phases tilesetlist) = Inr m"
    and "[0 .. m - 1] = ps @ qs" and "ps \<noteq> []"
  shows "render_all tilesetlist s =
           and_then
             (run_phases tilesetlist (map get_num_phases tilesetlist) ps
                (preprocess tilesetlist s1))
             (run_phases tilesetlist (map get_num_phases tilesetlist) qs)
    \<and> (\<forall>s'. run_phases tilesetlist (map get_num_phases tilesetlist) ps
                (preprocess tilesetlist s1) = Some (Returned, s') \<longrightarrow>
           reachable s' \<and> outstanding_jobs s' = 0
           \<and> drained (history s') = dispatched (history s') \<and> load s' = 0
           \<and> (\<forall>out s''. run_phases tilesetlist (map get_num_phases tilesetlist) qs s'
                            = Some (out, s'') \<longrightarrow> prefix (history s') (history s'')))
    \<and> (\<forall>s0 s'. reachable s0 \<and> finish_work s0 = Some s' \<longrightarrow> outstanding_jobs s' = 0)"
proof -
  let ?nps = "map get_num_phases tilesetlist"
  let ?s2 = "preprocess tilesetlist s1"
  have r1: "reachable s1"
    using continues_setup_tilesets [of s tilesetlist] assms(1,2) by (simp add: continues_def)
  have r2: "reachable ?s2"
    using continues_preprocess [of s1 tilesetlist] r1 by (simp add: continues_def)
  have a: "render_all tilesetlist s =
      and_then (run_phases tilesetlist ?nps ps ?s2) (run_phases tilesetlist ?nps qs)"
    using assms(2,3,4) run_phases_append [of tilesetlist ?nps ps qs ?s2]
    by (simp add: render_all_def and_then_def Let_def)
  have b: "reachable s' \<and> outstanding_jobs s' = 0
           \<and> drained (history s') = dispatched (history s') \<and> load s' = 0
           \<and> (\<forall>out s''. run_phases tilesetlist ?nps qs s' = Some (out, s'')
                  \<longrightarrow> prefix (history s') (history s''))"
    if run: "run_phases tilesetlist ?nps ps ?s2 = Some (Returned, s')" for s'
  proof -
    have r: "reachable s'"
      using continues_run_phases [OF run] r2 by (simp add: continues_def)
    have p: "prefix (history s') (history s'')"
      if "run_phases tilesetlist ?nps qs s' = Some (out, s'')" for out s''
      using continues_run_phases [OF that] by (simp add: continues_def)
    from drained_all [OF r run_phases_drained [OF assms(5) run]] r p show ?thesis by blast
  qed
  have c: "outstanding_jobs s' = 0" if "reachable s0" "finish_work s0 = Some s'" for s0 s'
    using drained_all [OF reachable_finish_work [OF that(2,1)] finish_work_bound [OF that(2)]]
    by simp
  from a b c show ?thesis by blast
qed

text \<open>The scenario of two tilesets: \<open>ts_B\<close> with two phases and \<open>ts_A\<close> with one, one worker,
  and a schedule in which the worker runs while the dispatcher waits.\<close>

definition ex_two :: sys where
  "ex_two = init 1 1 [[0, 0, 0, 0], [], [], [], [0], []]"

definition ex_two_setup :: sys where
  "ex_two_setup = snd (setup_tilesets [ts_B, ts_A] ex_two)"

definition ex_two_mid :: sys where
  "ex_two_mid = \<lparr>local_procs = 1, outstanding_jobs = 0,
     manager = Some \<lparr>tilesets = [ts_B, ts_A], tileset_version = 1,
                     tileset_data = ([ts_B, ts_A], 1)\<rparr>,
     pool = Some [0], job_queue = [], result_queue = [],
     procs = [Running [ts_B, ts_A] 1], schedule = [[0], []],
     history = [Published 1, Preprocessed 1, Preprocessed 0,
                Enqueued (1, 0, 1), Enqueued (1, 1, 7), Enqueued (1, 0, 2), Fetched 0 1,
                Executed 0 (1, 0, 1) 201, Executed 0 (1, 1, 7) 107, Executed 0 (1, 0, 2) 202,
                Drained 201, Drained 107, Drained 202]\<rparr>"

definition ex_two_end :: sys where
  "ex_two_end = ex_two_mid\<lparr>schedule := [],
     history := history ex_two_mid
                @ [Enqueued (1, 0, 3), Executed 0 (1, 0, 3) 203, Drained 203]\<rparr>"

lemma ex_two_phase0:
  "run_phases [ts_B, ts_A] (map get_num_phases [ts_B, ts_A]) [0]
     (preprocess [ts_B, ts_A] ex_two_setup) = Some (Returned, ex_two_mid)"
  by (simp add: ex_two_setup_def ex_two_def ex_two_mid_def model_defs ts_A_def ts_B_def
      throttle.simps finish_work.simps handle_messages.simps)

lemma ex_two_phase1:
  "run_phases [ts_B, ts_A] (map get_num_phases [ts_B, ts_A]) [1] ex_two_mid
     = Some (Returned, ex_two_end)"
  by (simp add: ex_two_end_def ex_two_mid_def model_defs ts_A_def ts_B_def
      throttle.simps finish_work.simps handle_messages.simps)

theorem phase_barrier_witness:
  "reachable ex_two
   \<and> setup_tilesets [ts_B, ts_A] ex_two = (Returned, ex_two_setup)
   \<and> py_max (map get_num_phases [ts_B, ts_A]) = Inr 2
   \<and> [0 .. 2 - 1] = [0] @ [1::int]
   \<and> run_phases [ts_B, ts_A] (map get_num_phases [ts_B, ts_A]) [0]
        (preprocess [ts_B, ts_A] ex_two_setup) = Some (Returned, ex_two_mid)
   \<and> render_all [ts_B, ts_A] ex_two = Some (Returned, ex_two_end)
   \<and> outstanding_jobs ex_two_mid = 0
   \<and> drained (history ex_two_mid) = dispatched (history ex_two_mid)
   \<and> prefix (history ex_two_mid) (history ex_two_end)"
proof -
  have r: "reachable ex_two"
    unfolding ex_two_def by (rule r_init)
  have s: "setup_tilesets [ts_B, ts_A] ex_two = (Returned, ex_two_setup)"
    by (simp add: ex_two_setup_def ex_two_def setup_tilesets_def init_def Let_def)
  have m: "py_max (map get_num_phases [ts_B, ts_A]) = Inr 2"
    by (simp add: ts_A_def ts_B_def)
  have u: "[0 .. 2 - 1] = [0] @ [1::int]"
    by (simp add: upto_rec1)
  have n: "[0::int] \<noteq> []"
    by simp
  from phase_barrier [OF r s m u n] ex_two_phase0 ex_two_phase1 r s m u
  show ?thesis
    by (simp add: and_then_def)
qed

subsection \<open>How render_all ends\<close>

lemma ex_two_render_all: "render_all [ts_B, ts_A] ex_two = Some (Returned, ex_two_end)"
proof -
  have s: "setup_tilesets [ts_B, ts_A] ex_two = (Returned, ex_two_setup)"
    by (simp add: ex_two_setup_def ex_two_def setup_tilesets_def init_def Let_def)
  have m: "py_max (map get_num_phases [ts_B, ts_A]) = Inr 2"
    by (simp add: ts_A_def ts_B_def)
  have u: "[0 .. 2 - 1] = [0] @ [1::int]"
    by (simp add: upto_rec1)
  have "run_phases [ts_B, ts_A] (map get_num_phases [ts_B, ts_A]) ([0] @ [1])
          (preprocess [ts_B, ts_A] ex_two_setup)
        = and_then (Some (Returned, ex_two_mid))
            (run_phases [ts_B, ts_A] (map get_num_phases [ts_B, ts_A]) [1])"
    by (simp only: run_phases_append ex_two_phase0)
  also have "\<dots> = run_phases [ts_B, ts_A] (map get_num_phases [ts_B, ts_A]) [1] ex_two_mid"
    by (simp only: and_then_def option.case prod.case outcome.case)
  also note ex_two_phase1
  finally have "run_phases [ts_B, ts_A] (map get_num_phases [ts_B, ts_A]) ([0] @ [1])
          (preprocess [ts_B, ts_A] ex_two_setup) = Some (Returned, ex_two_end)" .
  with s m u show ?thesis
    by (simp add: render_all_def and_then_def Let_def)
qed

text \<open>
  C2, as stated: the last step of \<open>render_all\<close> is a call of \<open>close\<close>. It fails on the run
  of the two tilesets: \<open>render_all\<close> returns with the pool and the manager in place, the
  job queue empty and no sentinel sent, whereas a \<open>close\<close> there drops the pool and puts a
  sentinel on the queue.
\<close>

theorem render_all_does_not_close:
  "render_all [ts_B, ts_A] ex_two = Some (Returned, ex_two_end)
   \<and> pool ex_two_end = Some [0]
   \<and> manager ex_two_end \<noteq> None
   \<and> job_queue ex_two_end = []
   \<and> sentinels (history ex_two_end) = 0
   \<and> pool (snd (close ex_two_end)) = None
   \<and> job_queue (snd (close ex_two_end)) = [None]"
  by (simp add: ex_two_render_all)
    (simp add: ex_two_end_def ex_two_mid_def close_def put_sentinel_def log_def sentinels_def)

text \<open>
  C2, amended: \<open>render_all\<close> never calls \<open>close\<close>. Whenever it returns or raises, the pool
  is the one it started with, the manager is there if and only if it was there before, and
  no sentinel has been sent; a run that returns normally leaves the manager in place.
  Closing the dispatcher is left to the caller.
\<close>

theorem render_all_leaves_open:
  assumes "render_all tilesetlist s = Some (out, s')"
  shows "pool s' = pool s
    \<and> (manager s' = None) = (manager s = None)
    \<and> sentinels (history s') = sentinels (history s)
    \<and> (out = Returned \<longrightarrow> manager s' \<noteq> None)"
proof -
  have c: "continues s s'"
    by (rule continues_render_all [OF assms])
  have "manager s \<noteq> None" if "out = Returned"
  proof
    assume "manager s = None"
    then have "render_all tilesetlist s = Some (Raised AttributeError, s)"
      by (simp add: render_all_def setup_tilesets_def and_then_def)
    with assms that show False by simp
  qed
  with c show ?thesis by (simp add: continues_def)
qed

theorem render_all_leaves_open_witness:
  "render_all [ts_B, ts_A] ex_two = Some (Returned, ex_two_end)
   \<and> pool ex_two_end = pool ex_two
   \<and> manager ex_two_end \<noteq> None
   \<and> sentinels (history ex_two_end) = sentinels (history ex_two)"
  using render_all_leaves_open [OF ex_two_render_all] ex_two_render_all by auto

text \<open>
  C10. On the empty list \<open>render_all\<close> always raises and never returns normally. With a
  manager in place it raises the ValueError of \<open>max\<close> on the empty list of phase counts, in
  the state in which the empty list has been published and nothing else has happened; in
  any case the job queue, the counter and the number of jobs enqueued are what they were
  before the call.
\<close>

theorem render_all_empty:
  "(\<exists>e s'. render_all [] s = Some (Raised e, s'))
   \<and> (\<forall>m. manager s = Some m \<longrightarrow>
         render_all [] s =
           Some (Raised ValueError,
                 log (Published (tileset_version m + 1))
                   (s\<lparr>manager := Some (set_tilesets [] m)\<rparr>)))
   \<and> (\<forall>out s'. render_all [] s = Some (out, s') \<longrightarrow>
         job_queue s' = job_queue s \<and> outstanding_jobs s' = outstanding_jobs s
         \<and> dispatched (history s') = dispatched (history s))"
proof (cases "manager s")
  case None
  then have "render_all [] s = Some (Raised AttributeError, s)"
    by (simp add: render_all_def setup_tilesets_def and_then_def)
  with None show ?thesis by simp
next
  case (Some m)
  then have "render_all [] s =
      Some (Raised ValueError,
            log (Published (tileset_version m + 1)) (s\<lparr>manager := Some (set_tilesets [] m)\<rparr>))"
    by (simp add: render_all_def setup_tilesets_def and_then_def preprocess_def)
  with Some show ?thesis by (simp add: log_def)
qed

theorem render_all_empty_witness:
  "manager (init 1 1 []) = Some manager_init
   \<and> render_all [] (init 1 1 []) =
       Some (Raised ValueError,
             \<lparr>local_procs = 1, outstanding_jobs = 0,
              manager = Some \<lparr>tilesets = [], tileset_version = 1, tileset_data = ([], 1)\<rparr>,
              pool = Some [0], job_queue = [], result_queue = [],
              procs = [Starting], schedule = [], history = [Published 1]\<rparr>)"
proof -
  have m: "manager (init 1 1 []) = Some manager_init"
    by (simp add: init_def Let_def)
  have "log (Published (tileset_version manager_init + 1))
          ((init 1 1 [])\<lparr>manager := Some (set_tilesets [] manager_init)\<rparr>)
        = \<lparr>local_procs = 1, outstanding_jobs = 0,
              manager = Some \<lparr>tilesets = [], tileset_version = 1, tileset_data = ([], 1)\<rparr>,
              pool = Some [0], job_queue = [], result_queue = [],
              procs = [Starting], schedule = [], history = [Published 1]\<rparr>"
    by (simp add: model_defs)
  with render_all_empty [of "init 1 1 []"] m show ?thesis by simp
qed

subsection \<open>Shutdown\<close>

lemma worker_step_exited:
  "i < length (procs s) \<Longrightarrow> procs s ! i = Exited \<Longrightarrow> worker_step i s = s"
  by (simp add: worker_step_def)

lemma worker_step_sentinel:
  assumes "i < length (procs s)" and "procs s ! i = Running ts v" and "job_queue s = None # q"
    and "manager s = Some m"
  shows "worker_step i s = log (Stopped i) (set_proc i Exited (s\<lparr>job_queue := q\<rparr>))"
  using assms by (simp add: worker_step_def)

text \<open>
  C9. In a state of a run in which the dispatcher has its pool, the pool has one entry
  for each of the \<open>local_procs\<close> worker processes, and \<open>close\<close> returns normally having put
  exactly that many sentinels at the end of the job queue (and nothing else), with the
  pool and the manager dropped. A running worker that takes a sentinel from the queue
  returns from \<open>run\<close>: it takes nothing else from the job queue, puts no result, and any
  further step of it changes nothing. A worker that has returned never does anything.
\<close>

theorem close_sends_sentinels:
  assumes "reachable s" and "pool s = Some p"
  shows "length p = nat (local_procs s) \<and> length p = length (procs s)
    \<and> fst (close s) = Returned
    \<and> job_queue (snd (close s)) = job_queue s @ replicate (length p) None
    \<and> sentinels (history (snd (close s))) = sentinels (history s) + length p
    \<and> pool (snd (close s)) = None \<and> manager (snd (close s)) = None
    \<and> (\<forall>i ts v q. i < length (procs s) \<and> procs s ! i = Running ts v \<and> job_queue s = None # q
          \<longrightarrow> procs (worker_step i s) ! i = Exited
              \<and> job_queue (worker_step i s) = q
              \<and> result_queue (worker_step i s) = result_queue s
              \<and> worker_step i (worker_step i s) = worker_step i s)
    \<and> (\<forall>i. i < length (procs s) \<and> procs s ! i = Exited \<longrightarrow> worker_step i s = s)"
proof -
  have st: "staffed s"
    by (rule reachable_staffed [OF assms(1)])
  with assms(2) obtain m where m: "manager s = Some m"
    by (auto simp: staffed_def)
  have a: "length p = nat (local_procs s) \<and> length p = length (procs s)"
    using st assms(2) by (simp add: staffed_def)
  have b: "fst (close s) = Returned
    \<and> job_queue (snd (close s)) = job_queue s @ replicate (length p) None
    \<and> sentinels (history (snd (close s))) = sentinels (history s) + length p
    \<and> pool (snd (close s)) = None \<and> manager (snd (close s)) = None"
    by (simp add: close_open [OF assms(2) m] sentinels_def)
  have c: "procs (worker_step i s) ! i = Exited
              \<and> job_queue (worker_step i s) = q
              \<and> result_queue (worker_step i s) = result_queue s
              \<and> worker_step i (worker_step i s) = worker_step i s"
    if "i < length (procs s)" "procs s ! i = Running ts v" "job_queue s = None # q"
    for i ts v q
  proof -
    let ?s' = "log (Stopped i) (set_proc i Exited (s\<lparr>job_queue := q\<rparr>))"
    have e: "worker_step i s = ?s'"
      by (rule worker_step_sentinel [OF that m])
    have x: "i < length (procs ?s')" "procs ?s' ! i = Exited"
      using that(1) by (simp_all add: log_def set_proc_def)
    have "worker_step i ?s' = ?s'"
      by (rule worker_step_exited [OF x])
    with e x(2) show ?thesis
      by (simp add: log_def set_proc_def)
  qed
  have d: "worker_step i s = s" if "i < length (procs s)" "procs s ! i = Exited" for i
    by (rule worker_step_exited [OF that])
  from a b c d show ?thesis by blast
qed

text \<open>The dispatcher after the run of the two tilesets, with one sentinel sent.\<close>

definition ex_stopping :: sys where
  "ex_stopping = put_sentinel ex_two_end"

lemma reachable_ex_two_end: "reachable ex_two_end"
proof -
  have "reachable ex_two"
    unfolding ex_two_def by (rule r_init)
  with continues_render_all [OF ex_two_render_all] show ?thesis
    by (simp add: continues_def)
qed

theorem close_sends_sentinels_witness:
  "reachable ex_stopping \<and> pool ex_stopping = Some [0]
   \<and> local_procs ex_stopping = 1 \<and> length (procs ex_stopping) = 1
   \<and> job_queue ex_stopping = [None]
   \<and> job_queue (snd (close ex_stopping)) = [None, None]
   \<and> procs ex_stopping ! 0 = Running [ts_B, ts_A] 1
   \<and> procs (worker_step 0 ex_stopping) ! 0 = Exited
   \<and> job_queue (worker_step 0 ex_stopping) = []
   \<and> result_queue (worker_step 0 ex_stopping) = []"
proof -
  have r: "reachable ex_stopping"
    unfolding ex_stopping_def by (rule r_sentinel [OF reachable_ex_two_end])
  have p: "pool ex_stopping = Some [0]"
    by (simp add: ex_stopping_def ex_two_end_def ex_two_mid_def put_sentinel_def log_def)
  have f: "local_procs ex_stopping = 1" "length (procs ex_stopping) = 1"
    "job_queue ex_stopping = [None]" "procs ex_stopping ! 0 = Running [ts_B, ts_A] 1"
    "result_queue ex_stopping = []"
    by (simp_all add: ex_stopping_def ex_two_end_def ex_two_mid_def put_sentinel_def log_def)
  from close_sends_sentinels [OF r p] f r p show ?thesis
    by simp
qed

subsection \<open>Version reconciliation in the worker\<close>

text \<open>The calls of \<open>get_tilesets\<close> that worker \<open>i\<close> has made are the \<open>Fetched i\<close> events.\<close>

fun is_fetch :: "nat \<Rightarrow> event \<Rightarrow> bool" where
  "is_fetch i (Fetched k v) = (k = i)"
| "is_fetch i e = False"

definition fetches :: "nat \<Rightarrow> event list \<Rightarrow> nat" where
  "fetches i h = length (filter (is_fetch i) h)"

lemma fetches_snoc [simp]:
  "fetches i (h @ [e]) = fetches i h + (if is_fetch i e then 1 else 0)"
  by (simp add: fetches_def)

lemma execute_running:
  assumes "i < length (procs s)" and "procs s ! i = Running ts v"
  shows "execute i (tv, ti, workitem) s =
    (if ti < length ts then
       (case do_work (ts ! ti) workitem of
          Inl e \<Rightarrow> crash i e s
        | Inr r \<Rightarrow> log (Executed i (tv, ti, workitem) r)
                    (s\<lparr>result_queue := result_queue s @ [r]\<rparr>))
     else crash i IndexError s)"
  using assms by (simp add: execute_def)

text \<open>What \<open>execute\<close> leaves behind: no fetch; the worker keeps its cache or is dead; and a
  result is put only as the value of \<open>do_work\<close> on the cached tileset of the job's index.\<close>

lemma execute_effect:
  assumes "i < length (procs s)" and "procs s ! i = Running ts v"
  shows "fetches i (history (execute i (tv, ti, workitem) s)) = fetches i (history s)
    \<and> job_queue (execute i (tv, ti, workitem) s) = job_queue s
    \<and> (\<forall>r. result_queue (execute i (tv, ti, workitem) s) = result_queue s @ [r] \<longrightarrow>
          procs (execute i (tv, ti, workitem) s) ! i = Running ts v
          \<and> ti < length ts \<and> do_work (ts ! ti) workitem = Inr r)"
  using assms
  by (auto simp: execute_running crash_def log_def set_proc_def split: sum.splits)

lemma worker_step_job:
  assumes "i < length (procs s)" and "procs s ! i = Running ts v"
    and "job_queue s = Some (tv, ti, workitem) # q"
    and "manager s = Some m" and "get_tilesets m = (ts', v')"
  shows "worker_step i s =
    (if tv = v then execute i (tv, ti, workitem) (s\<lparr>job_queue := q\<rparr>)
     else if tv = v' then
       execute i (tv, ti, workitem)
         (log (Fetched i v') (set_proc i (Running ts' v') (s\<lparr>job_queue := q\<rparr>)))
     else
       crash i AssertionError
         (log (Fetched i v') (set_proc i (Running ts' v') (s\<lparr>job_queue := q\<rparr>))))"
  using assms
  by (simp add: worker_step_def do_job_def update_tilesets_def Let_def log_def set_proc_def)

text \<open>
  C6. A running worker with the cache \<open>(ts, v)\<close> takes the job \<open>(tv, ti, workitem)\<close> from the
  queue while the manager holds the pair \<open>(ts', v')\<close>. It calls \<open>get_tilesets\<close> once if
  \<open>tv\<close> differs from \<open>v\<close> and not at all otherwise. If \<open>tv\<close> differs from \<open>v\<close> and from the
  fetched \<open>v'\<close> too, the worker dies of an AssertionError: the job is gone from the queue,
  no result is put, and no later step of the worker does anything. With \<open>tv = v\<close> the job
  is run on the cache as it was, and with \<open>tv = v'\<close> on the cache just fetched. Whenever
  the step puts a result, the worker's cached version is \<open>tv\<close> and the result is the value
  of \<open>do_work\<close> on the cached tileset at index \<open>ti\<close>.
\<close>

theorem worker_reconciles:
  assumes "i < length (procs s)" and "procs s ! i = Running ts v"
    and "job_queue s = Some (tv, ti, workitem) # q"
    and "manager s = Some m" and "get_tilesets m = (ts', v')"
  shows "fetches i (history (worker_step i s))
           = fetches i (history s) + (if tv = v then 0 else 1)
    \<and> job_queue (worker_step i s) = q
    \<and> (tv \<noteq> v \<and> tv \<noteq> v' \<longrightarrow>
          procs (worker_step i s) ! i = Crashed AssertionError
          \<and> result_queue (worker_step i s) = result_queue s
          \<and> worker_step i (worker_step i s) = worker_step i s)
    \<and> (tv = v \<longrightarrow> worker_step i s = execute i (tv, ti, workitem) (s\<lparr>job_queue := q\<rparr>))
    \<and> (tv \<noteq> v \<and> tv = v' \<longrightarrow>
          worker_step i s =
            execute i (tv, ti, workitem)
              (log (Fetched i v') (set_proc i (Running ts' v') (s\<lparr>job_queue := q\<rparr>))))
    \<and> (\<forall>r. result_queue (worker_step i s) = result_queue s @ [r] \<longrightarrow>
          procs (worker_step i s) ! i = Running (if tv = v then ts else ts') tv
          \<and> (tv = v \<or> tv = v')
          \<and> ti < length (if tv = v then ts else ts')
          \<and> do_work ((if tv = v then ts else ts') ! ti) workitem = Inr r)"
proof -
  let ?j = "(tv, ti, workitem)"
  let ?s0 = "s\<lparr>job_queue := q\<rparr>"
  let ?s1 = "log (Fetched i v') (set_proc i (Running ts' v') ?s0)"
  note step = worker_step_job [OF assms]
  have p0: "i < length (procs ?s0)" "procs ?s0 ! i = Running ts v"
    using assms(1,2) by simp_all
  have p1: "i < length (procs ?s1)" "procs ?s1 ! i = Running ts' v'"
    using assms(1) by (simp_all add: log_def set_proc_def)
  have h1: "fetches i (history ?s1) = fetches i (history s) + 1"
    "job_queue ?s1 = q" "result_queue ?s1 = result_queue s"
    by (simp_all add: log_def set_proc_def)
  show ?thesis
  proof (cases "tv = v")
    case True
    with step have e: "worker_step i s = execute i ?j ?s0" by simp
    from execute_effect [OF p0, of tv ti workitem] e True show ?thesis by simp
  next
    case False
    show ?thesis
    proof (cases "tv = v'")
      case True
      with step False have e: "worker_step i s = execute i ?j ?s1" by simp
      from execute_effect [OF p1, of tv ti workitem] e True False h1 show ?thesis by simp
    next
      case neq: False
      with step False have e: "worker_step i s = crash i AssertionError ?s1" by simp
      have c: "i < length (procs (crash i AssertionError ?s1))"
        "procs (crash i AssertionError ?s1) ! i = Crashed AssertionError"
        using assms(1) by (simp_all add: crash_def log_def set_proc_def)
      have "worker_step i (crash i AssertionError ?s1) = crash i AssertionError ?s1"
        using c by (simp add: worker_step_def)
      with e c False neq show ?thesis
        by (simp add: crash_def log_def set_proc_def fetches_def)
    qed
  qed
qed

text \<open>
  A worker that fetched the empty list at version 0; then \<open>[ts_A]\<close> is published, a job is
  dispatched under version 1, and \<open>[ts_A]\<close> is published again before the worker takes the
  job. The worker fetches version 2, which is not the job's version 1, and dies.
\<close>

definition ex_stale :: sys where
  "ex_stale =
     snd (setup_tilesets [ts_A]
       (snd (submit ts_A 7 (snd (setup_tilesets [ts_A] (worker_step 0 (init 1 1 [])))))))"

theorem worker_reconciles_witness:
  "0 < length (procs ex_stale) \<and> procs ex_stale ! 0 = Running [] 0
   \<and> job_queue ex_stale = [Some (1, 0, 7)]
   \<and> manager ex_stale
        = Some \<lparr>tilesets = [ts_A], tileset_version = 2, tileset_data = ([ts_A], 2)\<rparr>
   \<and> fetches 0 (history ex_stale) = 1
   \<and> fetches 0 (history (worker_step 0 ex_stale)) = 2
   \<and> procs (worker_step 0 ex_stale) ! 0 = Crashed AssertionError
   \<and> job_queue (worker_step 0 ex_stale) = []
   \<and> result_queue (worker_step 0 ex_stale) = []"
proof -
  have a: "0 < length (procs ex_stale)" "procs ex_stale ! 0 = Running [] 0"
    by (simp_all add: ex_stale_def model_defs ts_A_def)
  have b: "job_queue ex_stale = Some (1, 0, 7) # []"
    by (simp add: ex_stale_def model_defs ts_A_def)
  have c: "manager ex_stale
        = Some \<lparr>tilesets = [ts_A], tileset_version = 2, tileset_data = ([ts_A], 2)\<rparr>"
    by (simp add: ex_stale_def model_defs ts_A_def)
  have d: "get_tilesets \<lparr>tilesets = [ts_A], tileset_version = 2, tileset_data = ([ts_A], 2)\<rparr>
        = ([ts_A], 2)"
    by (simp add: get_tilesets_def)
  have e: "fetches 0 (history ex_stale) = 1" "result_queue ex_stale = []"
    by (simp_all add: ex_stale_def model_defs ts_A_def fetches_def)
  from worker_reconciles [OF a b c d] a b c e show ?thesis
    by simp
qed

end
